theory Spec2Isabelle
  imports Main "HOL-Library.Word" "HOL-Library.Monad_Syntax"
begin

unbundle bit_operations_syntax

section \<open>Data model\<close>

type_synonym byte = "8 word"
type_synonym bytes = "byte list"

text \<open>
  Go's \<open>error\<close> values that occur in the ClientHello sniffer. \<open>io.EOF\<close> and
  \<open>io.ErrUnexpectedEOF\<close> are the sentinels the code compares against by identity;
  every \<open>errors.New\<close> and \<open>fmt.Errorf\<close> of the two parsers is a constructor of its
  own; \<open>ErrTransport\<close> stands for any other error value of the underlying
  \<open>net.Conn\<close> (a timeout, a reset, a closed connection). \<open>None\<close> of type
  \<open>error option\<close> is Go's \<open>nil\<close> error.
\<close>

datatype error =
    EOF
  | ErrUnexpectedEOF
  | ErrSSLv2
  | ErrNotHandshake
  | ErrVersion "16 word"
  | ErrRecordTooLarge
  | ErrHelloTooShort
  | ErrNotClientHello byte
  | ErrHelloLength
  | ErrTransport string

section \<open>Slices with Go's run-time checks\<close>

text \<open>
  Indexing and slicing panic in Go when out of range. Here a panic is the value
  \<open>None\<close>. A slice expression is checked against the length of the list; Go checks
  the upper bound against the capacity, which is at least the length, so every
  panic of the program is a \<open>None\<close> of the model. A \<open>nil\<close> slice is the empty list.
\<close>

definition at :: "bytes \<Rightarrow> nat \<Rightarrow> byte option" where
  "at b i = (if i < length b then Some (b ! i) else None)"

definition slice_from :: "bytes \<Rightarrow> nat \<Rightarrow> bytes option" where
  "slice_from b i = (if i \<le> length b then Some (drop i b) else None)"

definition slice_to :: "bytes \<Rightarrow> nat \<Rightarrow> bytes option" where
  "slice_to b j = (if j \<le> length b then Some (take j b) else None)"

definition slice :: "bytes \<Rightarrow> nat \<Rightarrow> nat \<Rightarrow> bytes option" where
  "slice b i j = (if i \<le> j \<and> j \<le> length b then Some (take (j - i) (drop i b)) else None)"

text \<open>\<open>b[:n]\<close> for an \<open>n\<close> of Go's type \<open>int\<close>, which may be negative.\<close>

definition slice_to_int :: "bytes \<Rightarrow> int \<Rightarrow> bytes option" where
  "slice_to_int b n = (if 0 \<le> n then slice_to b (nat n) else None)"

text \<open>
  \<open>binary.BigEndian.Uint16\<close> of the standard library:
  \<^verbatim>\<open>_ = b[1]; return uint16(b[1]) | uint16(b[0])<<8\<close>.
\<close>

definition Uint16 :: "bytes \<Rightarrow> 16 word option" where
  "Uint16 b = do {
     b1 \<leftarrow> at b 1;
     b0 \<leftarrow> at b 0;
     Some ((ucast b1 :: 16 word) OR push_bit 8 (ucast b0 :: 16 word))
   }"

section \<open>The record parser and the handshake parser\<close>

text \<open>
  Both parsers return Go's pair \<open>([]byte, error)\<close>, inside \<open>option\<close> for the
  panics of the slice operations. \<open>io.ErrUnexpectedEOF\<close> is the outcome the
  specification calls NeedMoreData, a \<open>nil\<close> error is Complete, every other error
  is Invalid.
\<close>

definition headerSize_record :: nat where
  "headerSize_record = 1 + 2 + 2"

definition typeHandshake :: byte where
  "typeHandshake = 22"

definition majorVersion :: "16 word" where
  "majorVersion = 3"

definition maxRecordLength :: "16 word" where
  "maxRecordLength = 16384"

definition handshakeRecord :: "bytes \<Rightarrow> (bytes \<times> error option) option" where
  "handshakeRecord b =
     (if length b < headerSize_record then Some ([], Some ErrUnexpectedEOF)
      else do {
        typ \<leftarrow> at b 0;
        b1 \<leftarrow> slice_from b 1;
        vers \<leftarrow> Uint16 b1;
        b3 \<leftarrow> slice_from b 3;
        len \<leftarrow> Uint16 b3;
        b' \<leftarrow> slice_from b headerSize_record;
        if typ \<noteq> typeHandshake then
          (if typ = 0x80 then Some ([], Some ErrSSLv2)
           else Some ([], Some ErrNotHandshake))
        else if drop_bit 8 vers \<noteq> majorVersion then Some ([], Some (ErrVersion vers))
        else if len > maxRecordLength then Some ([], Some ErrRecordTooLarge)
        else if unat len > length b' then Some ([], Some ErrUnexpectedEOF)
        else do {
          r \<leftarrow> slice_to b' (unat len);
          Some (r, None)
        }
      })"

definition headerSize_hello :: nat where
  "headerSize_hello = 1 + 3"

definition typeClientHello :: byte where
  "typeClientHello = 1"

text \<open>The loop \<^verbatim>\<open>for _, v := range b[1:4] { length = (length << 8) | uint32(v) }\<close>.\<close>

definition hello_length :: "bytes \<Rightarrow> 32 word" where
  "hello_length hdr = foldl (\<lambda>len v. push_bit 8 len OR (ucast v :: 32 word)) 0 hdr"

definition parseHello :: "bytes \<Rightarrow> (bytes \<times> error option) option" where
  "parseHello b =
     (if length b < headerSize_hello then Some ([], Some ErrHelloTooShort)
      else do {
        typ \<leftarrow> at b 0;
        hdr \<leftarrow> slice b 1 4;
        let len = hello_length hdr;
        b' \<leftarrow> slice_from b headerSize_hello;
        if typ \<noteq> typeClientHello then Some ([], Some (ErrNotClientHello typ))
        else if unat len > length b' then Some ([], Some ErrHelloLength)
        else do {
          r \<leftarrow> slice_to b' (unat len);
          Some (r, None)
        }
      })"

section \<open>The connection decorator\<close>

text \<open>
  \<open>clientHelloConn\<close>: the field \<open>buf\<close> is \<open>None\<close> for a \<open>nil\<close> pointer and otherwise
  the contents of the \<open>bytes.Buffer\<close>; \<open>doneCH\<close> is the done flag. The embedded
  \<open>net.Conn\<close> and the callback \<open>fn\<close> are the environment: what the underlying
  connection returns is an argument of each operation, and the calls the
  decorator makes to \<open>fn\<close>, to \<open>bufferPool\<close> and to the underlying \<open>Close\<close> are
  returned as a list of events, in the order of the calls. The callback is taken
  to be a function that returns, and memory is taken to suffice for the buffer;
  the panics of the slice expressions are in the model, as \<open>None\<close>.
\<close>

record clientHelloConn =
  buf :: "bytes option"
  doneCH :: bool

datatype event =
    PoolGet
  | PoolPut bytes
  | Observe bytes "error option"
  | ConnClose

text \<open>
  What \<open>ch.Conn.Read(b)\<close> produced: the caller's buffer \<open>b\<close> after the call, the
  count \<open>n\<close> and the error.
\<close>

type_synonym outcome = "bytes \<times> int \<times> error option"

definition ClientHelloConn :: clientHelloConn where
  "ClientHelloConn = \<lparr>buf = None, doneCH = False\<rparr>"

text \<open>
  \<open>bytes.Buffer\<close>: \<open>Write\<close> appends a copy of its argument, \<open>Bytes\<close> is the contents,
  \<open>Reset\<close> empties it. \<open>Grow\<close> changes the capacity only. A buffer taken from
  \<open>bufferPool\<close> is empty: \<open>New\<close> makes an empty one, and each \<open>Put\<close> of this package
  follows a \<open>Reset\<close> (see \<open>PoolPut\<close>, which records the contents put back).
\<close>

definition buf_Write :: "bytes \<Rightarrow> bytes \<Rightarrow> bytes" where
  "buf_Write p d = p @ d"

definition buf_Reset :: "bytes \<Rightarrow> bytes" where
  "buf_Reset p = []"

definition release :: "bytes option \<Rightarrow> event list" where
  "release bo = (case bo of None \<Rightarrow> [] | Some p \<Rightarrow> [PoolPut (buf_Reset p)])"

definition Close :: "clientHelloConn \<Rightarrow> error option \<Rightarrow> error option \<times> clientHelloConn \<times> event list" where
  "Close ch cerr = (cerr, ch\<lparr>buf := None\<rparr>, release (buf ch) @ [ConnClose])"

definition Read :: "clientHelloConn \<Rightarrow> outcome \<Rightarrow> (outcome \<times> clientHelloConn \<times> event list) option" where
  "Read ch r = (case r of (b, n, err) \<Rightarrow>
     if doneCH ch \<or> (err \<noteq> None \<and> err \<noteq> Some EOF) then Some ((b, n, err), ch, [])
     else do {
       bn \<leftarrow> slice_to_int b n;
       let (ch1, hb) = (case buf ch of
                          None \<Rightarrow> (ch, bn)
                        | Some p \<Rightarrow> (ch\<lparr>buf := Some (buf_Write p bn)\<rparr>, buf_Write p bn));
       (hb', herr) \<leftarrow> handshakeRecord hb;
       if herr = Some ErrUnexpectedEOF then
         (if buf ch1 \<noteq> None then Some ((b, n, err), ch1, [])
          else Some ((b, n, err), ch1\<lparr>buf := Some (buf_Write [] bn)\<rparr>, [PoolGet]))
       else do {
         let ch2 = ch1\<lparr>doneCH := True\<rparr>;
         (hb'', herr') \<leftarrow> (if herr = None then parseHello hb' else Some (hb', herr));
         Some ((b, n, err), ch2\<lparr>buf := None\<rparr>, Observe hb'' herr' # release (buf ch2))
       }
     })"

section \<open>Sequences of calls on one connection\<close>

datatype call = CallRead outcome | CallClose "error option"

datatype ret = RetRead outcome | RetClose "error option"

fun exec :: "clientHelloConn \<Rightarrow> call list \<Rightarrow> (ret list \<times> clientHelloConn \<times> event list) option" where
  "exec ch [] = Some ([], ch, [])"
| "exec ch (CallRead r # cs) = do {
     (x, ch', ev) \<leftarrow> Read ch r;
     (xs, ch'', evs) \<leftarrow> exec ch' cs;
     Some (RetRead x # xs, ch'', ev @ evs)
   }"
| "exec ch (CallClose e # cs) = (case Close ch e of (x, ch', ev) \<Rightarrow> do {
     (xs, ch'', evs) \<leftarrow> exec ch' cs;
     Some (RetClose x # xs, ch'', ev @ evs)
   })"

fun is_Observe :: "event \<Rightarrow> bool" where
  "is_Observe (Observe _ _) = True"
| "is_Observe _ = False"

text \<open>The bytes one read hands to the caller: \<open>b[:n]\<close>.\<close>

definition delivered :: "outcome \<Rightarrow> bytes" where
  "delivered r = (case r of (b, n, err) \<Rightarrow> take (nat n) b)"

text \<open>The contract of \<open>io.Reader\<close> for the underlying read: \<open>0 <= n <= len(b)\<close>.\<close>

definition reader_ok :: "outcome \<Rightarrow> bool" where
  "reader_ok r = (case r of (b, n, err) \<Rightarrow> 0 \<le> n \<and> n \<le> int (length b))"

section \<open>Header fields by byte offset\<close>

text \<open>
  The fields of the two headers as the wire format lays them out, read as natural
  numbers; the theorems below state the parsers' results in terms of them. A TLS
  record starts with the type (offset 0), the version (offsets 1 and 2, the major
  version first) and the big-endian length (offsets 3 and 4); a handshake message
  with the type (offset 0) and the big-endian length (offsets 1 to 3).
\<close>

definition record_type :: "bytes \<Rightarrow> byte" where
  "record_type b = b ! 0"

definition record_major :: "bytes \<Rightarrow> byte" where
  "record_major b = b ! 1"

definition record_length :: "bytes \<Rightarrow> nat" where
  "record_length b = 256 * unat (b ! 3) + unat (b ! 4)"

definition hello_type :: "bytes \<Rightarrow> byte" where
  "hello_type b = b ! 0"

definition hello_body_length :: "bytes \<Rightarrow> nat" where
  "hello_body_length b = 65536 * unat (b ! 1) + 256 * unat (b ! 2) + unat (b ! 3)"

definition header_valid :: "bytes \<Rightarrow> bool" where
  "header_valid b = (record_type b = 22 \<and> record_major b = 3 \<and> record_length b \<le> 16384)"

section \<open>Observations on a run\<close>

text \<open>
  The bytes the record parser sees in a read: the new bytes alone while there is
  no buffer, and the buffer with the new bytes appended otherwise.
\<close>

definition sniffed :: "clientHelloConn \<Rightarrow> bytes \<Rightarrow> bytes" where
  "sniffed ch bn = (case buf ch of None \<Rightarrow> bn | Some p \<Rightarrow> p @ bn)"

text \<open>What a call returns when the decorator is transparent: the result of the underlying call.\<close>

fun transparent :: "call \<Rightarrow> ret" where
  "transparent (CallRead r) = RetRead r"
| "transparent (CallClose e) = RetClose e"

fun call_ok :: "call \<Rightarrow> bool" where
  "call_ok (CallRead r) = reader_ok r"
| "call_ok (CallClose e) = True"

fun returned :: "ret \<Rightarrow> bytes" where
  "returned (RetRead r) = delivered r"
| "returned (RetClose e) = []"

fun supplied :: "call \<Rightarrow> bytes" where
  "supplied (CallRead r) = delivered r"
| "supplied (CallClose e) = []"

text \<open>
  The traffic with \<open>bufferPool\<close>: the buffers taken, the buffers put back, and the
  buffer a connection still holds.
\<close>

fun is_PoolGet :: "event \<Rightarrow> bool" where
  "is_PoolGet PoolGet = True"
| "is_PoolGet _ = False"

fun is_PoolPut :: "event \<Rightarrow> bool" where
  "is_PoolPut (PoolPut _) = True"
| "is_PoolPut _ = False"

definition outstanding :: "clientHelloConn \<Rightarrow> nat" where
  "outstanding ch = (case buf ch of None \<Rightarrow> 0 | Some p \<Rightarrow> 1)"

section \<open>Big-endian fields\<close>

lemma byte_less: "unat (x :: byte) < 256"
  using unsigned_less[of x, where 'a=nat] by simp

lemma or_add16: "(ucast (lo::byte) :: 16 word) OR push_bit 8 (ucast (hi::byte) :: 16 word) = ucast lo + push_bit 8 (ucast hi)"
  by (rule disjunctive_add[symmetric]) (auto simp: bit_simps dest: bit_imp_le_length)

lemma unat_be16: "unat ((ucast (lo::byte) :: 16 word) OR push_bit 8 (ucast (hi::byte) :: 16 word)) = 256 * unat hi + unat lo"
proof -
  have lo: "unat lo < 256" by (rule byte_less)
  have hi: "unat hi < 256" by (rule byte_less)
  have a: "unat (ucast lo :: 16 word) = unat lo"
    using lo by (simp add: unsigned_ucast_eq take_bit_nat_eq_self_iff)
  have b: "unat (push_bit 8 (ucast hi :: 16 word)) = 256 * unat hi"
  proof -
    have t: "take_bit 16 (unat hi) = unat hi"
      using hi by (simp add: take_bit_nat_eq_self_iff)
    have "unat (push_bit 8 (ucast hi :: 16 word)) = take_bit 16 (push_bit 8 (unat hi))"
      using t by (simp add: unsigned_push_bit_eq unsigned_ucast_eq)
    also have "\<dots> = 256 * unat hi"
      using hi by (simp add: take_bit_eq_mod push_bit_eq_mult)
    finally show ?thesis .
  qed
  show ?thesis
    unfolding or_add16 using lo hi a b by (simp add: unat_word_ariths)
qed

lemma major_be16: "drop_bit 8 ((ucast (lo::byte) :: 16 word) OR push_bit 8 (ucast (hi::byte) :: 16 word)) = ucast hi"
  by (rule bit_word_eqI) (auto simp: bit_simps dest: bit_imp_le_length)

lemma ucast_byte_eq_3: "((ucast (hi::byte) :: 16 word) = 3) = (hi = 3)"
proof -
  have hi: "unat hi < 256" by (rule byte_less)
  have a: "unat (ucast hi :: 16 word) = unat hi"
    using hi by (simp add: unsigned_ucast_eq take_bit_nat_eq_self_iff)
  have "((ucast hi :: 16 word) = 3) = (unat (ucast hi :: 16 word) = unat (3 :: 16 word))"
    by (simp only: word_unat_eq_iff)
  also have "\<dots> = (unat hi = unat (3 :: byte))"
    by (simp add: a)
  also have "\<dots> = (hi = 3)"
    by (simp only: word_unat_eq_iff)
  finally show ?thesis .
qed

lemma gt_max_iff: "(len > maxRecordLength) = (unat len > 16384)"
  by (simp add: maxRecordLength_def word_less_nat_alt)

lemma or_add32: "push_bit 8 (acc::32 word) OR ucast (v::byte) = push_bit 8 acc + ucast v"
  by (rule disjunctive_add[symmetric]) (auto simp: bit_simps dest: bit_imp_le_length)

lemma hello_length_step:
  assumes "unat (acc::32 word) < 16777216"
  shows "unat (push_bit 8 acc OR ucast (v::byte)) = 256 * unat acc + unat v"
proof -
  have v: "unat v < 256" by (rule byte_less)
  have a: "unat (ucast v :: 32 word) = unat v"
    using v by (simp add: unsigned_ucast_eq take_bit_nat_eq_self_iff)
  have b: "unat (push_bit 8 acc) = 256 * unat acc"
    using assms by (simp only: unsigned_push_bit_eq) (simp add: take_bit_eq_mod push_bit_eq_mult)
  show ?thesis
    unfolding or_add32 using assms v a b by (simp add: unat_word_ariths)
qed

lemma unat_hello_length:
  "unat (hello_length [a, b, c]) = 65536 * unat a + 256 * unat b + unat c"
proof -
  have a: "unat a < 256" and b: "unat b < 256" by (rule byte_less)+
  have s1: "unat (push_bit 8 (0::32 word) OR ucast a) = unat a"
    using hello_length_step[of 0 a] by simp
  have s2: "unat (push_bit 8 (push_bit 8 (0::32 word) OR ucast a) OR ucast b) = 256 * unat a + unat b"
    using hello_length_step[of "push_bit 8 (0::32 word) OR ucast a" b] a s1 by simp
  have s3: "unat (push_bit 8 (push_bit 8 (push_bit 8 (0::32 word) OR ucast a) OR ucast b) OR ucast c) = 65536 * unat a + 256 * unat b + unat c"
    using hello_length_step[of "push_bit 8 (push_bit 8 (0::32 word) OR ucast a) OR ucast b" c] a b s2 by simp
  show ?thesis
    unfolding hello_length_def foldl.simps using s3 by simp
qed

lemma slice_1_4:
  assumes "4 \<le> length b"
  shows "slice b 1 4 = Some [b ! 1, b ! 2, b ! 3]"
proof -
  have "take 3 (drop 1 b) = [b ! 1, b ! 2, b ! 3]"
    using assms
    by (auto simp add: list_eq_iff_nth_eq less_Suc_eq numeral_3_eq_3 numeral_2_eq_2)
  then show ?thesis
    using assms by (simp add: slice_def del: One_nat_def)
qed

section \<open>The parsers in closed form\<close>

lemma handshakeRecord_short:
  "length b < 5 \<Longrightarrow> handshakeRecord b = Some ([], Some ErrUnexpectedEOF)"
  by (simp add: handshakeRecord_def headerSize_record_def)

lemma handshakeRecord_header:
  assumes "5 \<le> length b"
  shows "handshakeRecord b = Some
    (if record_type b \<noteq> 22 then
       (if record_type b = 0x80 then ([], Some ErrSSLv2) else ([], Some ErrNotHandshake))
     else if record_major b \<noteq> 3 then
       ([], Some (ErrVersion ((ucast (b ! 2) :: 16 word) OR push_bit 8 (ucast (b ! 1) :: 16 word))))
     else if record_length b > 16384 then ([], Some ErrRecordTooLarge)
     else if record_length b > length b - 5 then ([], Some ErrUnexpectedEOF)
     else (take (record_length b) (drop 5 b), None))"
proof -
  define vers where "vers = ((ucast (b ! 2) :: 16 word) OR push_bit 8 (ucast (b ! 1) :: 16 word))"
  define len where "len = ((ucast (b ! 4) :: 16 word) OR push_bit 8 (ucast (b ! 3) :: 16 word))"
  have v: "Uint16 (drop 1 b) = Some vers"
    using assms by (simp add: Uint16_def at_def vers_def del: One_nat_def)
  have l: "Uint16 (drop 3 b) = Some len"
    using assms by (simp add: Uint16_def at_def len_def del: One_nat_def)
  have hr: "handshakeRecord b =
    (if b ! 0 \<noteq> 22 then
       (if b ! 0 = 0x80 then Some ([], Some ErrSSLv2) else Some ([], Some ErrNotHandshake))
     else if drop_bit 8 vers \<noteq> 3 then Some ([], Some (ErrVersion vers))
     else if len > maxRecordLength then Some ([], Some ErrRecordTooLarge)
     else if unat len > length b - 5 then Some ([], Some ErrUnexpectedEOF)
     else Some (take (unat len) (drop 5 b), None))"
    using assms
    by (auto simp add: handshakeRecord_def headerSize_record_def at_def slice_from_def slice_to_def
        v l typeHandshake_def majorVersion_def simp del: One_nat_def)
  have dv: "(drop_bit 8 vers \<noteq> 3) = (record_major b \<noteq> 3)"
    by (simp only: vers_def major_be16 ucast_byte_eq_3 record_major_def)
  have ul: "unat len = record_length b"
    by (simp only: len_def unat_be16 record_length_def)
  show ?thesis
    unfolding hr dv gt_max_iff ul record_type_def[symmetric]
    by (simp add: vers_def)
qed

lemma parseHello_short:
  "length b < 4 \<Longrightarrow> parseHello b = Some ([], Some ErrHelloTooShort)"
  by (simp add: parseHello_def headerSize_hello_def)

lemma parseHello_header:
  assumes "4 \<le> length b"
  shows "parseHello b = Some
    (if hello_type b \<noteq> 1 then ([], Some (ErrNotClientHello (hello_type b)))
     else if hello_body_length b > length b - 4 then ([], Some ErrHelloLength)
     else (take (hello_body_length b) (drop 4 b), None))"
proof -
  define len where "len = hello_length [b ! 1, b ! 2, b ! 3]"
  have ul: "unat len = hello_body_length b"
    by (simp only: len_def unat_hello_length hello_body_length_def)
  have ph: "parseHello b =
    (if b ! 0 \<noteq> 1 then Some ([], Some (ErrNotClientHello (b ! 0)))
     else if unat len > length b - 4 then Some ([], Some ErrHelloLength)
     else Some (take (unat len) (drop 4 b), None))"
    using assms
    by (auto simp add: parseHello_def headerSize_hello_def at_def slice_from_def slice_to_def
        slice_1_4 typeClientHello_def len_def[symmetric] Let_def simp del: One_nat_def)
  show ?thesis
    unfolding ph ul hello_type_def[symmetric] by simp
qed

lemma handshakeRecord_total: "\<exists>r. handshakeRecord b = Some r"
proof (cases "length b < 5")
  case True
  then show ?thesis by (simp add: handshakeRecord_short)
next
  case False
  then have "5 \<le> length b" by simp
  then show ?thesis by (simp only: handshakeRecord_header) blast
qed

lemma parseHello_total: "\<exists>r. parseHello b = Some r"
proof (cases "length b < 4")
  case True
  then show ?thesis by (simp add: parseHello_short)
next
  case False
  then have "4 \<le> length b" by simp
  then show ?thesis by (simp only: parseHello_header) blast
qed

section \<open>One read\<close>

lemma release_Reset: "release (Some p) = [PoolPut []]" "release None = []"
  by (simp_all add: release_def buf_Reset_def)

lemma Read_done: "doneCH ch \<Longrightarrow> Read ch r = Some (r, ch, [])"
  by (cases r) (simp add: Read_def)

lemma Read_error:
  "err \<noteq> None \<Longrightarrow> err \<noteq> Some EOF \<Longrightarrow> Read ch (b, n, err) = Some ((b, n, err), ch, [])"
  by (simp add: Read_def)

lemma slice_to_int_ok:
  "reader_ok (b, n, err) \<Longrightarrow> slice_to_int b n = Some (delivered (b, n, err))"
  by (auto simp add: reader_ok_def slice_to_int_def slice_to_def delivered_def)

lemma Read_sniffing:
  assumes "\<not> doneCH ch" and "err = None \<or> err = Some EOF" and "reader_ok (b, n, err)"
    and "handshakeRecord (sniffed ch (delivered (b, n, err))) = Some (hb, herr)"
  shows "Read ch (b, n, err) =
    (if herr = Some ErrUnexpectedEOF then
       Some ((b, n, err), ch\<lparr>buf := Some (sniffed ch (delivered (b, n, err)))\<rparr>,
             if buf ch = None then [PoolGet] else [])
     else case (if herr = None then parseHello hb else Some (hb, herr)) of
       None \<Rightarrow> None
     | Some (hb2, herr2) \<Rightarrow>
         Some ((b, n, err), ch\<lparr>buf := None, doneCH := True\<rparr>, Observe hb2 herr2 # release (buf ch)))"
proof (cases "buf ch")
  case None
  then show ?thesis
    using assms
    by (auto simp add: Read_def slice_to_int_ok sniffed_def buf_Write_def release_Reset
        split: option.splits)
next
  case (Some p)
  then show ?thesis
    using assms
    by (auto simp add: Read_def slice_to_int_ok sniffed_def buf_Write_def release_Reset
        split: option.splits)
qed

lemma slice_to_int_bad:
  "\<not> reader_ok (b, n, err) \<Longrightarrow> slice_to_int b n = None"
  by (auto simp add: reader_ok_def slice_to_int_def slice_to_def)

lemma Read_panics:
  "\<not> doneCH ch \<Longrightarrow> err = None \<or> err = Some EOF \<Longrightarrow> \<not> reader_ok (b, n, err) \<Longrightarrow>
   Read ch (b, n, err) = None"
  by (auto simp add: Read_def slice_to_int_bad)

lemma Read_cases:
  assumes "Read ch (b, n, err) = Some (x, ch', ev)"
  obtains
    (pass) "doneCH ch \<or> (err \<noteq> None \<and> err \<noteq> Some EOF)" and "x = (b, n, err)" and "ch' = ch" and "ev = []"
  | (wait) "\<not> doneCH ch" and "x = (b, n, err)"
      and "ch' = ch\<lparr>buf := Some (sniffed ch (delivered (b, n, err)))\<rparr>"
      and "ev = (if buf ch = None then [PoolGet] else [])"
  | (fire) hb herr where "\<not> doneCH ch" and "x = (b, n, err)"
      and "ch' = ch\<lparr>buf := None, doneCH := True\<rparr>"
      and "ev = Observe hb herr # release (buf ch)"
proof (cases "doneCH ch \<or> (err \<noteq> None \<and> err \<noteq> Some EOF)")
  case True
  then have "Read ch (b, n, err) = Some ((b, n, err), ch, [])"
    by (simp add: Read_def)
  with assms True show ?thesis
    by (intro pass) simp_all
next
  case False
  then have nd: "\<not> doneCH ch" and e: "err = None \<or> err = Some EOF"
    by auto
  have ok: "reader_ok (b, n, err)"
    using Read_panics[OF nd e] assms by (cases "reader_ok (b, n, err)") simp_all
  obtain hb herr where hr: "handshakeRecord (sniffed ch (delivered (b, n, err))) = Some (hb, herr)"
    using handshakeRecord_total[of "sniffed ch (delivered (b, n, err))"] by auto
  note rd = Read_sniffing[OF nd e ok hr]
  show ?thesis
  proof (cases "herr = Some ErrUnexpectedEOF")
    case True
    with rd assms show ?thesis
      by (intro wait[OF nd]) simp_all
  next
    case False
    obtain hb2 herr2 where ph: "(if herr = None then parseHello hb else Some (hb, herr)) = Some (hb2, herr2)"
      using parseHello_total[of hb] by (cases "herr = None") auto
    from rd False ph assms show ?thesis
      by (intro fire[OF nd, of hb2 herr2]) simp_all
  qed
qed

lemma Read_returns:
  assumes "reader_ok r"
  shows "\<exists>ch' ev. Read ch r = Some (r, ch', ev)"
proof -
  obtain b n err where r: "r = (b, n, err)"
    by (cases r) auto
  show ?thesis
  proof (cases "doneCH ch \<or> (err \<noteq> None \<and> err \<noteq> Some EOF)")
    case True
    then show ?thesis
      unfolding r by (simp add: Read_def)
  next
    case False
    then have nd: "\<not> doneCH ch" and e: "err = None \<or> err = Some EOF"
      by auto
    obtain hb herr where hr: "handshakeRecord (sniffed ch (delivered (b, n, err))) = Some (hb, herr)"
      using handshakeRecord_total[of "sniffed ch (delivered (b, n, err))"] by auto
    obtain hb2 herr2 where ph: "(if herr = None then parseHello hb else Some (hb, herr)) = Some (hb2, herr2)"
      using parseHello_total[of hb] by (cases "herr = None") auto
    show ?thesis
      unfolding r using Read_sniffing[OF nd e assms[unfolded r] hr] ph by simp
  qed
qed

lemma is_Observe_release: "filter is_Observe (release bo) = []"
  by (cases bo) (simp_all add: release_Reset)

lemma Read_step:
  assumes "Read ch r = Some (x, ch', ev)"
  shows "x = r"
    and "doneCH ch \<Longrightarrow> doneCH ch'"
    and "doneCH ch' \<Longrightarrow> buf ch = None \<or> \<not> doneCH ch \<Longrightarrow> buf ch' = None"
    and "length (filter is_Observe ev) = (if doneCH ch' \<and> \<not> doneCH ch then 1 else 0)"
proof -
  obtain b n err where r: "r = (b, n, err)"
    by (cases r) auto
  note a = assms[unfolded r]
  show "x = r"
    unfolding r using a by (cases rule: Read_cases) simp_all
  show "doneCH ch \<Longrightarrow> doneCH ch'"
    using a by (cases rule: Read_cases) simp_all
  show "doneCH ch' \<Longrightarrow> buf ch = None \<or> \<not> doneCH ch \<Longrightarrow> buf ch' = None"
    using a by (cases rule: Read_cases) auto
  show "length (filter is_Observe ev) = (if doneCH ch' \<and> \<not> doneCH ch then 1 else 0)"
    using a by (cases rule: Read_cases) (auto simp add: is_Observe_release)
qed

section \<open>Runs\<close>

lemma Close_step:
  "Close ch e = (e, ch\<lparr>buf := None\<rparr>, release (buf ch) @ [ConnClose])"
  by (simp add: Close_def)


lemma exec_Read_Some:
  assumes "exec ch (CallRead r # cs) = Some (rets, ch'', evs)"
  obtains x ch' ev xs evs' where "Read ch r = Some (x, ch', ev)"
    and "exec ch' cs = Some (xs, ch'', evs')" and "rets = RetRead x # xs" and "evs = ev @ evs'"
  using assms by (auto split: bind_splits)


lemma exec_Close_Some:
  assumes "exec ch (CallClose e # cs) = Some (rets, ch'', evs)"
  obtains xs evs' where "exec (ch\<lparr>buf := None\<rparr>) cs = Some (xs, ch'', evs')"
    and "rets = RetClose e # xs" and "evs = release (buf ch) @ [ConnClose] @ evs'"
  using assms by (auto simp add: Close_def split: bind_splits)


lemma exec_done_mono:
  assumes "exec ch cs = Some (rets, ch', evs)" and "doneCH ch"
  shows "doneCH ch'"
  using assms
proof (induction cs arbitrary: ch rets evs)
  case Nil
  then show ?case by simp
next
  case (Cons c cs)
  show ?case
  proof (cases c)
    case (CallRead r)
    from Cons.prems(1) obtain x ch1 ev xs evs' where
      rd: "Read ch r = Some (x, ch1, ev)" and ex: "exec ch1 cs = Some (xs, ch', evs')"
      unfolding CallRead by (rule exec_Read_Some)
    from Read_step(2)[OF rd Cons.prems(2)] have "doneCH ch1" .
    then show ?thesis by (rule Cons.IH[OF ex])
  next
    case (CallClose e)
    from Cons.prems(1) obtain xs evs' where
      ex: "exec (ch\<lparr>buf := None\<rparr>) cs = Some (xs, ch', evs')"
      unfolding CallClose by (rule exec_Close_Some)
    have "doneCH (ch\<lparr>buf := None\<rparr>)"
      using Cons.prems(2) by simp
    then show ?thesis by (rule Cons.IH[OF ex])
  qed
qed

lemma exec_released:
  assumes "exec ch cs = Some (rets, ch', evs)" and "doneCH ch'" and "buf ch = None \<or> \<not> doneCH ch"
  shows "buf ch' = None"
  using assms
proof (induction cs arbitrary: ch rets evs)
  case Nil
  then show ?case by auto
next
  case (Cons c cs)
  show ?case
  proof (cases c)
    case (CallRead r)
    from Cons.prems(1) obtain x ch1 ev xs evs' where
      rd: "Read ch r = Some (x, ch1, ev)" and ex: "exec ch1 cs = Some (xs, ch', evs')"
      unfolding CallRead by (rule exec_Read_Some)
    have "buf ch1 = None \<or> \<not> doneCH ch1"
      using Read_step(3)[OF rd _ Cons.prems(3)] by blast
    then show ?thesis by (rule Cons.IH[OF ex Cons.prems(2)])
  next
    case (CallClose e)
    from Cons.prems(1) obtain xs evs' where
      ex: "exec (ch\<lparr>buf := None\<rparr>) cs = Some (xs, ch', evs')"
      unfolding CallClose by (rule exec_Close_Some)
    have "buf (ch\<lparr>buf := None\<rparr>) = None \<or> \<not> doneCH (ch\<lparr>buf := None\<rparr>)"
      by simp
    then show ?thesis by (rule Cons.IH[OF ex Cons.prems(2)])
  qed
qed

lemma exec_observes:
  assumes "exec ch cs = Some (rets, ch', evs)"
  shows "length (filter is_Observe evs) = (if doneCH ch' \<and> \<not> doneCH ch then 1 else 0)"
  using assms
proof (induction cs arbitrary: ch rets evs)
  case Nil
  then show ?case by auto
next
  case (Cons c cs)
  show ?case
  proof (cases c)
    case (CallRead r)
    from Cons.prems obtain x ch1 ev xs evs' where
      rd: "Read ch r = Some (x, ch1, ev)" and ex: "exec ch1 cs = Some (xs, ch', evs')"
      and evs: "evs = ev @ evs'"
      unfolding CallRead by (rule exec_Read_Some)
    have a: "length (filter is_Observe ev) = (if doneCH ch1 \<and> \<not> doneCH ch then 1 else 0)"
      by (rule Read_step(4)[OF rd])
    have b: "length (filter is_Observe evs') = (if doneCH ch' \<and> \<not> doneCH ch1 then 1 else 0)"
      by (rule Cons.IH[OF ex])
    have m1: "doneCH ch \<Longrightarrow> doneCH ch1"
      by (rule Read_step(2)[OF rd])
    have m2: "doneCH ch1 \<Longrightarrow> doneCH ch'"
      by (rule exec_done_mono[OF ex])
    show ?thesis
      unfolding evs filter_append length_append a b
      using m1 m2 by (cases "doneCH ch"; cases "doneCH ch1"; cases "doneCH ch'") simp_all
  next
    case (CallClose e)
    from Cons.prems obtain xs evs' where
      ex: "exec (ch\<lparr>buf := None\<rparr>) cs = Some (xs, ch', evs')"
      and evs: "evs = release (buf ch) @ [ConnClose] @ evs'"
      unfolding CallClose by (rule exec_Close_Some)
    have b: "length (filter is_Observe evs') = (if doneCH ch' \<and> \<not> doneCH (ch\<lparr>buf := None\<rparr>) then 1 else 0)"
      by (rule Cons.IH[OF ex])
    show ?thesis
      unfolding evs filter_append length_append b by (simp add: is_Observe_release)
  qed
qed

lemma exec_done:
  assumes "doneCH ch" and "buf ch = None" and "exec ch cs = Some (rets, ch', evs)"
  shows "ch' = ch \<and> set evs \<subseteq> {ConnClose}"
  using assms(3)
proof (induction cs arbitrary: rets evs)
  case Nil
  then show ?case by simp
next
  case (Cons c cs)
  show ?case
  proof (cases c)
    case (CallRead r)
    from Cons.prems obtain x ch1 ev xs evs' where
      rd: "Read ch r = Some (x, ch1, ev)" and ex: "exec ch1 cs = Some (xs, ch', evs')"
      and evs: "evs = ev @ evs'"
      unfolding CallRead by (rule exec_Read_Some)
    from rd assms(1) have "ch1 = ch" and ev: "ev = []"
      by (simp_all add: Read_done)
    with ex have "exec ch cs = Some (xs, ch', evs')"
      by simp
    from Cons.IH[OF this] show ?thesis
      unfolding evs ev by simp
  next
    case (CallClose e)
    from Cons.prems obtain xs evs' where
      ex: "exec (ch\<lparr>buf := None\<rparr>) cs = Some (xs, ch', evs')"
      and evs: "evs = release (buf ch) @ [ConnClose] @ evs'"
      unfolding CallClose by (rule exec_Close_Some)
    have same: "ch\<lparr>buf := None\<rparr> = ch"
      using assms(2) by simp
    from ex have "exec ch cs = Some (xs, ch', evs')"
      unfolding same .
    from Cons.IH[OF this] show ?thesis
      unfolding evs assms(2) by (simp add: release_Reset)
  qed
qed

lemma exec_reads_done:
  "doneCH ch \<Longrightarrow> exec ch (map CallRead rs) = Some (map RetRead rs, ch, [])"
  by (induction rs) (simp_all add: Read_done)


lemma exec_transparent:
  "list_all call_ok cs \<Longrightarrow> \<exists>ch' evs. exec ch cs = Some (map transparent cs, ch', evs)"
proof (induction cs arbitrary: ch)
  case Nil
  then show ?case by simp
next
  case (Cons c cs)
  show ?case
  proof (cases c)
    case (CallRead r)
    with Cons.prems have "reader_ok r" and rest: "list_all call_ok cs"
      by simp_all
    then obtain ch1 ev where rd: "Read ch r = Some (r, ch1, ev)"
      using Read_returns by blast
    from Cons.IH[OF rest, of ch1] obtain ch' evs where "exec ch1 cs = Some (map transparent cs, ch', evs)"
      by blast
    with rd show ?thesis
      unfolding CallRead by simp
  next
    case (CallClose e)
    from Cons.prems have rest: "list_all call_ok cs"
      by simp
    from Cons.IH[OF rest, of "ch\<lparr>buf := None\<rparr>"] obtain ch' evs
      where "exec (ch\<lparr>buf := None\<rparr>) cs = Some (map transparent cs, ch', evs)"
      by blast
    then show ?thesis
      unfolding CallClose by (simp add: Close_def)
  qed
qed


lemma returned_transparent1: "returned (transparent c) = supplied c"
  by (cases c) simp_all

lemma returned_transparent:
  "concat (map returned (map transparent cs)) = concat (map supplied cs)"
  by (induction cs) (simp_all add: returned_transparent1)

lemma release_pool:
  "filter is_PoolGet (release bo) = []"
  "length (filter is_PoolPut (release bo)) = (case bo of None \<Rightarrow> 0 | Some p \<Rightarrow> 1)"
  "set (filter is_PoolPut (release bo)) \<subseteq> {PoolPut []}"
  by (cases bo; simp add: release_Reset)+

lemma Read_pool:
  assumes "Read ch r = Some (x, ch', ev)"
  shows "length (filter is_PoolGet ev) + outstanding ch = length (filter is_PoolPut ev) + outstanding ch'"
    and "set (filter is_PoolPut ev) \<subseteq> {PoolPut []}"
proof -
  obtain b n err where r: "r = (b, n, err)"
    by (cases r) auto
  note a = assms[unfolded r]
  show "length (filter is_PoolGet ev) + outstanding ch = length (filter is_PoolPut ev) + outstanding ch'"
    using a
  proof (cases rule: Read_cases)
    case pass
    then show ?thesis by simp
  next
    case wait
    then show ?thesis by (cases "buf ch") (simp_all add: outstanding_def)
  next
    case (fire hb herr)
    then show ?thesis by (cases "buf ch") (simp_all add: outstanding_def release_Reset)
  qed
  show "set (filter is_PoolPut ev) \<subseteq> {PoolPut []}"
    using a
  proof (cases rule: Read_cases)
    case pass
    then show ?thesis by simp
  next
    case wait
    then show ?thesis by simp
  next
    case (fire hb herr)
    then show ?thesis by (cases "buf ch") (simp_all add: release_Reset)
  qed
qed

lemma exec_pool_balance:
  assumes "exec ch cs = Some (rets, ch', evs)"
  shows "length (filter is_PoolGet evs) + outstanding ch = length (filter is_PoolPut evs) + outstanding ch'"
  using assms
proof (induction cs arbitrary: ch rets evs)
  case Nil
  then show ?case by simp
next
  case (Cons c cs)
  show ?case
  proof (cases c)
    case (CallRead r)
    from Cons.prems obtain x ch1 ev xs evs' where
      rd: "Read ch r = Some (x, ch1, ev)" and ex: "exec ch1 cs = Some (xs, ch', evs')"
      and evs: "evs = ev @ evs'"
      unfolding CallRead by (rule exec_Read_Some)
    have a: "length (filter is_PoolGet ev) + outstanding ch = length (filter is_PoolPut ev) + outstanding ch1"
      by (rule Read_pool(1)[OF rd])
    have b: "length (filter is_PoolGet evs') + outstanding ch1 = length (filter is_PoolPut evs') + outstanding ch'"
      by (rule Cons.IH[OF ex])
    show ?thesis
      unfolding evs filter_append length_append using a b by linarith
  next
    case (CallClose e)
    from Cons.prems obtain xs evs' where
      ex: "exec (ch\<lparr>buf := None\<rparr>) cs = Some (xs, ch', evs')"
      and evs: "evs = release (buf ch) @ [ConnClose] @ evs'"
      unfolding CallClose by (rule exec_Close_Some)
    have b: "length (filter is_PoolGet evs') + outstanding (ch\<lparr>buf := None\<rparr>)
               = length (filter is_PoolPut evs') + outstanding ch'"
      by (rule Cons.IH[OF ex])
    have o: "outstanding (ch\<lparr>buf := None\<rparr>) = 0"
      by (simp add: outstanding_def)
    have p: "length (filter is_PoolPut (release (buf ch))) = outstanding ch"
      by (simp add: release_pool(2) outstanding_def)
    show ?thesis
      unfolding evs filter_append length_append release_pool(1) p using b o by simp
  qed
qed

lemma exec_pool_reset:
  assumes "exec ch cs = Some (rets, ch', evs)"
  shows "set (filter is_PoolPut evs) \<subseteq> {PoolPut []}"
  using assms
proof (induction cs arbitrary: ch rets evs)
  case Nil
  then show ?case by simp
next
  case (Cons c cs)
  show ?case
  proof (cases c)
    case (CallRead r)
    from Cons.prems obtain x ch1 ev xs evs' where
      rd: "Read ch r = Some (x, ch1, ev)" and ex: "exec ch1 cs = Some (xs, ch', evs')"
      and evs: "evs = ev @ evs'"
      unfolding CallRead by (rule exec_Read_Some)
    have a: "set (filter is_PoolPut ev) \<subseteq> {PoolPut []}"
      by (rule Read_pool(2)[OF rd])
    have b: "set (filter is_PoolPut evs') \<subseteq> {PoolPut []}"
      by (rule Cons.IH[OF ex])
    show ?thesis
      unfolding evs filter_append set_append using a b by blast
  next
    case (CallClose e)
    from Cons.prems obtain xs evs' where
      ex: "exec (ch\<lparr>buf := None\<rparr>) cs = Some (xs, ch', evs')"
      and evs: "evs = release (buf ch) @ [ConnClose] @ evs'"
      unfolding CallClose by (rule exec_Close_Some)
    have a: "set (filter is_PoolPut (release (buf ch))) \<subseteq> {PoolPut []}"
      by (rule release_pool(3))
    have b: "set (filter is_PoolPut evs') \<subseteq> {PoolPut []}"
      by (rule Cons.IH[OF ex])
    have c: "filter is_PoolPut [ConnClose] = []"
      by simp
    show ?thesis
      unfolding evs filter_append set_append c using a b by auto
  qed
qed

lemma exec_hello:
  "exec ClientHelloConn [CallRead ([22, 3, 1, 0, 4, 1, 0, 0, 0], 9, None)]
   = Some ([RetRead ([22, 3, 1, 0, 4, 1, 0, 0, 0], 9, None)],
           \<lparr>buf = None, doneCH = True\<rparr>, [Observe [] None])"
  by (simp add: ClientHelloConn_def Read_def slice_to_int_def slice_to_def
      release_Reset handshakeRecord_header parseHello_header
      record_type_def record_major_def record_length_def hello_type_def hello_body_length_def)

lemma exec_hello_split:
  "exec ClientHelloConn [CallRead ([22, 3], 2, None), CallRead ([1, 0, 4, 1, 0, 0, 0], 7, None)]
   = Some ([RetRead ([22, 3], 2, None), RetRead ([1, 0, 4, 1, 0, 0, 0], 7, None)],
           \<lparr>buf = None, doneCH = True\<rparr>, [PoolGet, Observe [] None, PoolPut []])"
  by (simp add: ClientHelloConn_def Read_def slice_to_int_def slice_to_def buf_Write_def
      release_Reset handshakeRecord_short handshakeRecord_header parseHello_header
      record_type_def record_major_def record_length_def hello_type_def hello_body_length_def)

section \<open>Transport errors\<close>

text \<open>
  Claim C1, as stated: when the underlying read returns a transport error other
  than end-of-stream, the observer is called with the bytes sniffed so far and
  that error, the buffer is released, and no later read parses. In the run below
  the connection has buffered the two bytes \<open>16 03\<close> when a read times out: that
  read makes no call to the observer and none to the pool, the buffer and the
  cleared done flag stay as they were, and the next read completes the record, so
  that the observer is called then, with the ClientHello and no error.
\<close>

theorem Read_transport_error_counterexample:
  "exec ClientHelloConn
     [CallRead ([22, 3], 2, None),
      CallRead ([0, 0], 0, Some (ErrTransport ''i/o timeout''))]
   = Some ([RetRead ([22, 3], 2, None),
            RetRead ([0, 0], 0, Some (ErrTransport ''i/o timeout''))],
           \<lparr>buf = Some [22, 3], doneCH = False\<rparr>,
           [PoolGet]) \<and>
   exec ClientHelloConn
     [CallRead ([22, 3], 2, None),
      CallRead ([0, 0], 0, Some (ErrTransport ''i/o timeout'')),
      CallRead ([1, 0, 4, 1, 0, 0, 0], 7, None)]
   = Some ([RetRead ([22, 3], 2, None),
            RetRead ([0, 0], 0, Some (ErrTransport ''i/o timeout'')),
            RetRead ([1, 0, 4, 1, 0, 0, 0], 7, None)],
           \<lparr>buf = None, doneCH = True\<rparr>,
           [PoolGet, Observe [] None, PoolPut []])"
  by (simp add: ClientHelloConn_def Read_def slice_to_int_def slice_to_def buf_Write_def
      release_Reset handshakeRecord_short handshakeRecord_header parseHello_header
      record_type_def record_major_def record_length_def hello_type_def hello_body_length_def)

text \<open>
  Claim C1, amended. For every connection, if an underlying read returns a
  transport error other than end-of-stream, the read returns the buffer, count
  and error of the transport and does nothing else: the observer is not called,
  no buffer is taken from or released to the pool, and the done flag and the
  pending buffer are unchanged, so that sniffing goes on with the next read.
\<close>

theorem Read_transport_error:
  assumes "err = Some e" and "e \<noteq> EOF"
  shows "Read ch (b, n, err) = Some ((b, n, err), ch, [])"
  using assms by (simp add: Read_error)

theorem Read_transport_error_witness:
  "Read \<lparr>buf = Some [22, 3], doneCH = False\<rparr> ([7, 7], 1, Some (ErrTransport ''i/o timeout''))
   = Some (([7, 7], 1, Some (ErrTransport ''i/o timeout'')), \<lparr>buf = Some [22, 3], doneCH = False\<rparr>, [])"
  using Read_transport_error [of "Some (ErrTransport ''i/o timeout'')" "ErrTransport ''i/o timeout''"
      "\<lparr>buf = Some [22, 3], doneCH = False\<rparr>" "[7, 7]" 1]
  by simp

section \<open>Transparency\<close>

text \<open>
  Claim C2. For every connection state and every sequence of calls whose
  underlying reads keep the contract of \<open>io.Reader\<close> (\<open>0 <= n <= len(b)\<close>), each
  call returns exactly what the underlying call produced (for a read: the buffer
  contents, the count and the error), so the concatenation of the bytes returned
  by the reads is the concatenation of the bytes the transport supplied: nothing
  is dropped, duplicated or reordered, and no error is replaced.
\<close>

theorem exec_transparency:
  assumes "list_all call_ok cs"
  shows "\<exists>rets ch' evs. exec ch cs = Some (rets, ch', evs) \<and> rets = map transparent cs \<and>
           concat (map returned rets) = concat (map supplied cs)"
proof -
  from exec_transparent[OF assms, of ch] obtain ch' evs
    where "exec ch cs = Some (map transparent cs, ch', evs)"
    by blast
  with returned_transparent[of cs] show ?thesis
    by blast
qed

theorem exec_transparency_witness:
  "list_all call_ok
     [CallRead ([22, 3, 9], 2, None), CallRead ([1, 0, 4], 3, None),
      CallRead ([1, 0, 0, 0], 4, None), CallRead ([5, 6], 2, Some EOF)] \<and>
   (\<exists>rets ch' evs.
      exec ClientHelloConn
        [CallRead ([22, 3, 9], 2, None), CallRead ([1, 0, 4], 3, None),
         CallRead ([1, 0, 0, 0], 4, None), CallRead ([5, 6], 2, Some EOF)]
        = Some (rets, ch', evs) \<and>
      rets = [RetRead ([22, 3, 9], 2, None), RetRead ([1, 0, 4], 3, None),
              RetRead ([1, 0, 0, 0], 4, None), RetRead ([5, 6], 2, Some EOF)] \<and>
      concat (map returned rets) = [22, 3, 1, 0, 4, 1, 0, 0, 0, 5, 6])"
  using exec_transparency [of
     "[CallRead ([22, 3, 9], 2, None), CallRead ([1, 0, 4], 3, None),
       CallRead ([1, 0, 0, 0], 4, None), CallRead ([5, 6], 2, Some EOF)]" ClientHelloConn]
  by (simp add: reader_ok_def delivered_def)

section \<open>The record parser\<close>

text \<open>
  Claim C3. For every byte slice given to the record parser: with fewer than 5
  bytes the result is NeedMoreData (\<open>io.ErrUnexpectedEOF\<close>); with a valid 5-byte
  header (type 22, major version byte 3, declared length at most 16384) and fewer
  payload bytes than the declared length the result is NeedMoreData; and with a
  valid header and at least the declared number of payload bytes the result is
  Complete (\<open>nil\<close> error) with exactly the declared number of bytes that follow the
  header.
\<close>

theorem handshakeRecord_outcomes:
  "(length b < 5 \<longrightarrow> handshakeRecord b = Some ([], Some ErrUnexpectedEOF)) \<and>
   (5 \<le> length b \<and> header_valid b \<and> length b - 5 < record_length b \<longrightarrow>
      handshakeRecord b = Some ([], Some ErrUnexpectedEOF)) \<and>
   (5 \<le> length b \<and> header_valid b \<and> record_length b \<le> length b - 5 \<longrightarrow>
      handshakeRecord b = Some (take (record_length b) (drop 5 b), None))"
  by (simp add: handshakeRecord_short handshakeRecord_header header_valid_def)

theorem handshakeRecord_outcomes_witness:
  "handshakeRecord [22, 3] = Some ([], Some ErrUnexpectedEOF) \<and>
   header_valid [22, 3, 1, 0, 4, 1, 0] \<and>
   handshakeRecord [22, 3, 1, 0, 4, 1, 0] = Some ([], Some ErrUnexpectedEOF) \<and>
   header_valid [22, 3, 1, 0, 4, 1, 0, 0, 0, 9] \<and>
   handshakeRecord [22, 3, 1, 0, 4, 1, 0, 0, 0, 9] = Some ([1, 0, 0, 0], None)"
  using handshakeRecord_outcomes [of "[22, 3]"]
    handshakeRecord_outcomes [of "[22, 3, 1, 0, 4, 1, 0]"]
    handshakeRecord_outcomes [of "[22, 3, 1, 0, 4, 1, 0, 0, 0, 9]"]
  by (simp add: header_valid_def record_type_def record_major_def record_length_def)

text \<open>
  Claim C4, as stated: every input whose first byte is \<open>0x80\<close> yields the SSLv2
  error, and every input whose first byte is neither 22 nor \<open>0x80\<close> yields the
  not-a-handshake error. The parser looks at the type only once the whole 5-byte
  header is there: the one-byte input \<open>80\<close> and the two-byte input \<open>17 03\<close> yield
  NeedMoreData.
\<close>

theorem handshakeRecord_type_short_counterexample:
  "record_type [0x80] = 0x80 \<and>
   handshakeRecord [0x80] = Some ([], Some ErrUnexpectedEOF) \<and>
   handshakeRecord [0x80] \<noteq> Some ([], Some ErrSSLv2) \<and>
   record_type [0x17, 3] \<noteq> 22 \<and> record_type [0x17, 3] \<noteq> 0x80 \<and>
   handshakeRecord [0x17, 3] = Some ([], Some ErrUnexpectedEOF) \<and>
   handshakeRecord [0x17, 3] \<noteq> Some ([], Some ErrNotHandshake)"
  by (simp add: handshakeRecord_short record_type_def)

text \<open>
  Claim C4, amended. For every input of at least 5 bytes whose first byte is
  \<open>0x80\<close>, the record parser yields the SSLv2 error and no bytes, whatever the
  other bytes are; for every input of at least 5 bytes whose first byte is neither
  22 nor \<open>0x80\<close>, it yields the not-a-handshake error and no bytes.
\<close>

theorem handshakeRecord_type_errors:
  "(5 \<le> length b \<and> record_type b = 0x80 \<longrightarrow> handshakeRecord b = Some ([], Some ErrSSLv2)) \<and>
   (5 \<le> length b \<and> record_type b \<noteq> 22 \<and> record_type b \<noteq> 0x80 \<longrightarrow>
      handshakeRecord b = Some ([], Some ErrNotHandshake))"
  by (simp add: handshakeRecord_header)

theorem handshakeRecord_type_errors_witness:
  "handshakeRecord [0x80, 0x2e, 1, 0, 2] = Some ([], Some ErrSSLv2) \<and>
   handshakeRecord [0x17, 3, 3, 0, 1, 0] = Some ([], Some ErrNotHandshake)"
  using handshakeRecord_type_errors [of "[0x80, 0x2e, 1, 0, 2]"]
    handshakeRecord_type_errors [of "[0x17, 3, 3, 0, 1, 0]"]
  by (simp add: record_type_def)

text \<open>
  Claim C5. For every input with a complete 5-byte header of type 22 and major
  version byte 3 whose declared length exceeds 16384, the record parser returns
  the record-too-large error at once, however few payload bytes are present.
\<close>

theorem handshakeRecord_too_large:
  assumes "5 \<le> length b" and "record_type b = 22" and "record_major b = 3"
    and "16384 < record_length b"
  shows "handshakeRecord b = Some ([], Some ErrRecordTooLarge)"
  using assms by (simp add: handshakeRecord_header)

theorem handshakeRecord_too_large_witness:
  "record_length [22, 3, 1, 0x40, 1] = 16385 \<and>
   handshakeRecord [22, 3, 1, 0x40, 1] = Some ([], Some ErrRecordTooLarge)"
  using handshakeRecord_too_large [of "[22, 3, 1, 0x40, 1]"]
  by (simp add: record_type_def record_major_def record_length_def)

section \<open>The handshake parser\<close>

text \<open>
  Claim C6. For every record payload of fewer than 4 bytes the handshake parser
  returns the error handshake-header-too-short, which is not \<open>io.ErrUnexpectedEOF\<close>
  (NeedMoreData); so a read of a sniffing connection whose bytes complete a record
  with such a payload calls the observer with no bytes and that error, sets the
  done flag and releases the buffer, instead of buffering on.
\<close>

theorem hello_too_short_terminal:
  "(length pl < 4 \<longrightarrow> parseHello pl = Some ([], Some ErrHelloTooShort)) \<and>
   (\<not> doneCH ch \<and> (err = None \<or> err = Some EOF) \<and> reader_ok (b, n, err) \<and>
    handshakeRecord (sniffed ch (delivered (b, n, err))) = Some (pl, None) \<and> length pl < 4 \<longrightarrow>
      Read ch (b, n, err) =
        Some ((b, n, err), ch\<lparr>buf := None, doneCH := True\<rparr>,
              Observe [] (Some ErrHelloTooShort) # release (buf ch)))"
proof (intro conjI impI)
  assume "length pl < 4"
  then show "parseHello pl = Some ([], Some ErrHelloTooShort)"
    by (rule parseHello_short)
next
  assume a: "\<not> doneCH ch \<and> (err = None \<or> err = Some EOF) \<and> reader_ok (b, n, err) \<and>
    handshakeRecord (sniffed ch (delivered (b, n, err))) = Some (pl, None) \<and> length pl < 4"
  then have nd: "\<not> doneCH ch" and e: "err = None \<or> err = Some EOF" and ok: "reader_ok (b, n, err)"
    and hr: "handshakeRecord (sniffed ch (delivered (b, n, err))) = Some (pl, None)"
    and sh: "length pl < 4"
    by blast+
  show "Read ch (b, n, err) =
        Some ((b, n, err), ch\<lparr>buf := None, doneCH := True\<rparr>,
              Observe [] (Some ErrHelloTooShort) # release (buf ch))"
    unfolding Read_sniffing[OF nd e ok hr] by (simp add: parseHello_short[OF sh])
qed

theorem hello_too_short_terminal_witness:
  "parseHello [1, 0, 0] = Some ([], Some ErrHelloTooShort) \<and>
   handshakeRecord (sniffed \<lparr>buf = Some [22, 3, 1], doneCH = False\<rparr> (delivered ([0, 3, 1, 0, 0], 5, None)))
     = Some ([1, 0, 0], None) \<and>
   Read \<lparr>buf = Some [22, 3, 1], doneCH = False\<rparr> ([0, 3, 1, 0, 0], 5, None) =
     Some (([0, 3, 1, 0, 0], 5, None), \<lparr>buf = None, doneCH = True\<rparr>,
           [Observe [] (Some ErrHelloTooShort), PoolPut []])"
  using hello_too_short_terminal [of "[1, 0, 0]" "\<lparr>buf = Some [22, 3, 1], doneCH = False\<rparr>" None
      "[0, 3, 1, 0, 0]" 5]
  by (simp add: reader_ok_def delivered_def sniffed_def release_Reset handshakeRecord_header
      record_type_def record_major_def record_length_def)

text \<open>
  Claim C7. For every record payload of at least 4 bytes whose first byte is the
  ClientHello type 1 and whose 3-byte big-endian body length does not exceed the
  bytes that remain, the handshake parser returns Complete with exactly the body
  of the declared length, whatever follows it; and the record \<open>16 03 01 00 04\<close> with
  the payload \<open>01 00 00 00\<close> yields that payload from the record parser and an empty
  ClientHello body from the handshake parser.
\<close>

theorem parseHello_complete:
  "(4 \<le> length b \<and> hello_type b = 1 \<and> hello_body_length b \<le> length b - 4 \<longrightarrow>
      parseHello b = Some (take (hello_body_length b) (drop 4 b), None)) \<and>
   handshakeRecord [0x16, 0x03, 0x01, 0x00, 0x04, 0x01, 0x00, 0x00, 0x00]
     = Some ([0x01, 0x00, 0x00, 0x00], None) \<and>
   parseHello [0x01, 0x00, 0x00, 0x00] = Some ([], None)"
  by (simp add: parseHello_header handshakeRecord_header hello_type_def hello_body_length_def
      record_type_def record_major_def record_length_def)

theorem parseHello_complete_witness:
  "hello_body_length [1, 0, 0, 2, 0xAA, 0xBB, 0xCC] = 2 \<and>
   parseHello [1, 0, 0, 2, 0xAA, 0xBB, 0xCC] = Some ([0xAA, 0xBB], None)"
  using parseHello_complete [of "[1, 0, 0, 2, 0xAA, 0xBB, 0xCC]"]
  by (simp add: hello_type_def hello_body_length_def)

section \<open>After the callback\<close>

text \<open>
  Claim C8. In every run of calls on a fresh connection the observer is called at
  most once; and once it has been called, every later read returns what the
  transport yields, with no call to the observer or the pool and no change of the
  state (no parsing, no buffering), however many reads follow.
\<close>

theorem observer_fires_once:
  assumes "exec ClientHelloConn cs = Some (rets, ch, evs)"
  shows "length (filter is_Observe evs) \<le> 1 \<and>
         (filter is_Observe evs \<noteq> [] \<longrightarrow>
            exec ch (map CallRead rs) = Some (map RetRead rs, ch, []))"
proof -
  have n: "length (filter is_Observe evs) = (if doneCH ch then 1 else 0)"
    using exec_observes[OF assms] by (simp add: ClientHelloConn_def)
  have "filter is_Observe evs \<noteq> [] \<Longrightarrow> doneCH ch"
    using n by (cases "doneCH ch") simp_all
  then have "filter is_Observe evs \<noteq> [] \<longrightarrow>
      exec ch (map CallRead rs) = Some (map RetRead rs, ch, [])"
    by (simp add: exec_reads_done)
  moreover have "length (filter is_Observe evs) \<le> 1"
    using n by simp
  ultimately show ?thesis
    by blast
qed

theorem observer_fires_once_witness:
  "exec ClientHelloConn [CallRead ([22, 3, 1, 0, 4, 1, 0, 0, 0], 9, None)]
     = Some ([RetRead ([22, 3, 1, 0, 4, 1, 0, 0, 0], 9, None)],
             \<lparr>buf = None, doneCH = True\<rparr>, [Observe [] None]) \<and>
   length (filter is_Observe [Observe [] None]) \<le> 1 \<and>
   exec \<lparr>buf = None, doneCH = True\<rparr>
     (map CallRead [([22, 3, 1], 3, None), ([0], 5, Some EOF)])
     = Some (map RetRead [([22, 3, 1], 3, None), ([0], 5, Some EOF)],
             \<lparr>buf = None, doneCH = True\<rparr>, [])"
  using observer_fires_once [OF exec_hello, of "[([22, 3, 1], 3, None), ([0], 5, Some EOF)]"]
    exec_hello
  by simp

text \<open>
  Claim C9. In every run on a fresh connection, the buffers taken from the pool
  are the buffers put back plus the one the connection still holds, and every
  buffer put back has been reset. In every state such a run reaches between two
  calls, if the done flag is set then the pending buffer is absent and as many
  buffers were put back as were taken: the pending buffer has been released to
  the pool; from then on every call leaves it absent, and makes no call to the
  pool. And \<open>Close\<close>, in every state, puts the reset buffer back into the pool if
  there is one, then closes the underlying connection and returns its result.
\<close>

theorem done_buffer_released:
  "(exec ClientHelloConn cs = Some (rets, ch, evs) \<longrightarrow>
      length (filter is_PoolGet evs) = length (filter is_PoolPut evs) + outstanding ch \<and>
      set (filter is_PoolPut evs) \<subseteq> {PoolPut []} \<and>
      (doneCH ch \<longrightarrow>
         buf ch = None \<and>
         length (filter is_PoolPut evs) = length (filter is_PoolGet evs) \<and>
         (exec ch cs' = Some (rets', ch', evs') \<longrightarrow>
            doneCH ch' \<and> buf ch' = None \<and> set evs' \<subseteq> {ConnClose}))) \<and>
   Close ch0 cerr =
     (cerr, ch0\<lparr>buf := None\<rparr>,
      case buf ch0 of None \<Rightarrow> [ConnClose] | Some p \<Rightarrow> [PoolPut [], ConnClose])"
proof (intro conjI impI)
  assume ex: "exec ClientHelloConn cs = Some (rets, ch, evs)"
  show bal: "length (filter is_PoolGet evs) = length (filter is_PoolPut evs) + outstanding ch"
    using exec_pool_balance[OF ex] by (simp add: ClientHelloConn_def outstanding_def)
  show "set (filter is_PoolPut evs) \<subseteq> {PoolPut []}"
    by (rule exec_pool_reset[OF ex])
  assume d: "doneCH ch"
  show b: "buf ch = None"
    using exec_released[OF ex d] by (simp add: ClientHelloConn_def)
  show "length (filter is_PoolPut evs) = length (filter is_PoolGet evs)"
    using bal b by (simp add: outstanding_def)
  assume ex': "exec ch cs' = Some (rets', ch', evs')"
  from exec_done[OF d b ex'] have "ch' = ch" and ev: "set evs' \<subseteq> {ConnClose}"
    by blast+
  then show "doneCH ch'" and "buf ch' = None" and "set evs' \<subseteq> {ConnClose}"
    using d b by simp_all
next
  show "Close ch0 cerr =
     (cerr, ch0\<lparr>buf := None\<rparr>,
      case buf ch0 of None \<Rightarrow> [ConnClose] | Some p \<Rightarrow> [PoolPut [], ConnClose])"
    by (cases "buf ch0") (simp_all add: Close_def release_Reset)
qed

theorem done_buffer_released_witness:
  "exec ClientHelloConn [CallRead ([22, 3], 2, None), CallRead ([1, 0, 4, 1, 0, 0, 0], 7, None)]
     = Some ([RetRead ([22, 3], 2, None), RetRead ([1, 0, 4, 1, 0, 0, 0], 7, None)],
             \<lparr>buf = None, doneCH = True\<rparr>, [PoolGet, Observe [] None, PoolPut []]) \<and>
   length (filter is_PoolGet [PoolGet, Observe [] None, PoolPut []]) = 1 \<and>
   length (filter is_PoolPut [PoolGet, Observe [] None, PoolPut []]) = 1 \<and>
   outstanding \<lparr>buf = None, doneCH = True\<rparr> = 0 \<and>
   exec \<lparr>buf = None, doneCH = True\<rparr> [CallRead ([9], 1, None), CallClose None]
     = Some ([RetRead ([9], 1, None), RetClose None], \<lparr>buf = None, doneCH = True\<rparr>, [ConnClose]) \<and>
   Close \<lparr>buf = Some [22, 3], doneCH = False\<rparr> None
     = (None, \<lparr>buf = None, doneCH = False\<rparr>, [PoolPut [], ConnClose])"
proof -
  have e: "exec \<lparr>buf = None, doneCH = True\<rparr> [CallRead ([9], 1, None), CallClose None]
     = Some ([RetRead ([9], 1, None), RetClose None], \<lparr>buf = None, doneCH = True\<rparr>, [ConnClose])"
    by (simp add: Read_def Close_def release_Reset)
  show ?thesis
    using done_buffer_released [of
        "[CallRead ([22, 3], 2, None), CallRead ([1, 0, 4, 1, 0, 0, 0], 7, None)]"
        "[RetRead ([22, 3], 2, None), RetRead ([1, 0, 4, 1, 0, 0, 0], 7, None)]"
        "\<lparr>buf = None, doneCH = True\<rparr>" "[PoolGet, Observe [] None, PoolPut []]"
        "[CallRead ([9], 1, None), CallClose None]"
        "[RetRead ([9], 1, None), RetClose None]" "\<lparr>buf = None, doneCH = True\<rparr>" "[ConnClose]"
        "\<lparr>buf = Some [22, 3], doneCH = False\<rparr>" None]
      exec_hello_split e
    by (simp add: outstanding_def)
qed

section \<open>Totality of the parsers\<close>

text \<open>
  Claim C10. For every input, the record parser and the handshake parser return a
  result: none of their index and slice operations (the header reads and the
  slicing of the payload by the declared length) goes out of bounds, which in the
  model would be the value \<open>None\<close>.
\<close>

theorem parsers_total:
  "(\<exists>r. handshakeRecord b = Some r) \<and> (\<exists>r. parseHello b = Some r)"
  using handshakeRecord_total parseHello_total by blast

end
